theory Spec2Isabelle
  imports Main
begin

section \<open>Python values and the object store\<close>

text \<open>
  The module \<^verbatim>\<open>e2b_code_interpreter/models.py\<close> builds its \<^verbatim>\<open>Result\<close> objects out of a
  dictionary that the caller owns and that the constructor mutates. Dictionaries and
  lists are therefore objects in a store, addressed by their position, and a value is
  either immutable (\<^verbatim>\<open>None\<close>, a bool, a number, a string) or a reference to an object.
  Two references are the same Python object exactly when the addresses are equal.
\<close>

type_synonym addr = nat

datatype val = VNone | VBool bool | VNum int | VStr string | VRef addr

text \<open>
  A dictionary keeps its items in insertion order; its keys are strings (MIME types,
  JSON member names). A list is the other mutable container a JSON payload can hold.
\<close>

datatype obj = ODict "(string \<times> val) list" | OList "val list"

type_synonym heap = "obj list"

text \<open>
  The exceptions the modelled operations raise. \<open>NoSuchObject\<close> is not a Python exception:
  it marks a reference that points outside the store, which no state of a running program
  contains (see \<open>wf_heap\<close> below).
\<close>

datatype exn = KeyError string | TypeError | AttributeError | RecursionError | NoSuchObject

fun vals_of :: "obj \<Rightarrow> val list" where
  "vals_of (ODict kvs) = map snd kvs"
| "vals_of (OList vs) = vs"

fun map_vals :: "(val \<Rightarrow> val) \<Rightarrow> obj \<Rightarrow> obj" where
  "map_vals f (ODict kvs) = ODict (map (\<lambda>(k, v). (k, f v)) kvs)"
| "map_vals f (OList vs) = OList (map f vs)"

fun refs_of_val :: "val \<Rightarrow> addr list" where
  "refs_of_val (VRef a) = [a]"
| "refs_of_val v = []"

definition refs_of :: "obj \<Rightarrow> addr list" where
  "refs_of ob = concat (map refs_of_val (vals_of ob))"

text \<open>A store is well formed when every reference held by an object points into the store.\<close>

definition wf_heap :: "heap \<Rightarrow> bool" where
  "wf_heap h = (\<forall>ob \<in> set h. \<forall>a \<in> set (refs_of ob). a < length h)"

subsection \<open>\<^verbatim>\<open>dict.pop\<close>\<close>

definition del_key :: "string \<Rightarrow> (string \<times> val) list \<Rightarrow> (string \<times> val) list" where
  "del_key key kvs = filter (\<lambda>(k, v). k \<noteq> key) kvs"

text \<open>
  \<^verbatim>\<open>x.pop(key[, default])\<close> on a value \<open>x\<close>. On a dictionary it removes the item and returns its
  value; without the item it returns the default, or raises \<^verbatim>\<open>KeyError(key)\<close> when no default
  was given. The dictionary is changed in place: the store is updated at its address.
  \<^verbatim>\<open>list.pop\<close> wants an integer index and raises \<^verbatim>\<open>TypeError\<close> on a string; \<^verbatim>\<open>None\<close>, bools,
  numbers and strings have no \<^verbatim>\<open>pop\<close> attribute.
\<close>

fun pop :: "val \<Rightarrow> string \<Rightarrow> val option \<Rightarrow> heap \<Rightarrow> (exn + val) \<times> heap" where
  "pop (VRef d) key dflt h =
     (if length h \<le> d then (Inl NoSuchObject, h)
      else case h ! d of
        OList vs \<Rightarrow> (Inl TypeError, h)
      | ODict kvs \<Rightarrow>
          (case map_of kvs key of
             Some v \<Rightarrow> (Inr v, h[d := ODict (del_key key kvs)])
           | None \<Rightarrow>
               (case dflt of
                  None \<Rightarrow> (Inl (KeyError key), h)
                | Some v \<Rightarrow> (Inr v, h))))"
| "pop x key dflt h = (Inl AttributeError, h)"

subsection \<open>\<^verbatim>\<open>copy.deepcopy\<close>\<close>

text \<open>
  \<^verbatim>\<open>copy.deepcopy\<close> belongs to Python's standard library. It returns immutable values as they
  are and copies every container reachable from its argument exactly once: its memo
  dictionary maps each object already met to that object's copy, so shared and cyclic
  structure is reproduced, and the copies are fresh objects.

  It is recursive: \<^verbatim>\<open>deepcopy(x)\<close> on a container not yet in the memo calls \<^verbatim>\<open>deepcopy\<close> on each
  of its items, so the calls nest as deep as the containers do, and the interpreter raises
  \<^verbatim>\<open>RecursionError\<close> when the nesting exceeds its recursion limit. \<open>walk n h vis v\<close> is this
  recursion: \<open>n\<close> is the number of nested calls of \<^verbatim>\<open>deepcopy\<close> the interpreter still allows
  (CPython spends two frames on each, one for \<^verbatim>\<open>deepcopy\<close> and one for the copier of the
  value's type, so the default limit of 1000 frames leaves fewer than 500), \<open>vis\<close> are the
  keys of the memo, in the order in which the objects were first met. The result is \<open>None\<close>
  when the limit is exceeded, and the final keys of the memo otherwise.
\<close>

fun walk :: "nat \<Rightarrow> heap \<Rightarrow> addr list \<Rightarrow> val \<Rightarrow> addr list option"
  and walk_list :: "nat \<Rightarrow> heap \<Rightarrow> addr list \<Rightarrow> val list \<Rightarrow> addr list option" where
  "walk 0 h vis v = None"
| "walk (Suc n) h vis (VRef a) =
     (if a \<in> set vis \<or> length h \<le> a then Some vis
      else walk_list n h (vis @ [a]) (vals_of (h ! a)))"
| "walk (Suc n) h vis v = Some vis"
| "walk_list n h vis [] = Some vis"
| "walk_list n h vis (v # vs) =
     (case walk n h vis v of
        None \<Rightarrow> None
      | Some vis' \<Rightarrow> walk_list n h vis' vs)"

fun rename :: "(addr \<rightharpoonup> addr) \<Rightarrow> val \<Rightarrow> val" where
  "rename m (VRef a) = (case m a of Some b \<Rightarrow> VRef b | None \<Rightarrow> VRef a)"
| "rename m v = v"

text \<open>
  \<open>deepcopy limit v h\<close>: the call \<^verbatim>\<open>copy.deepcopy(v)\<close> in the store \<open>h\<close> when the interpreter
  allows \<open>limit\<close> nested calls. When the recursion completes, one copy per object met is
  allocated behind the end of the store, in the order of first meeting; the memo maps each
  object to its copy, and the copy holds the renamed values of the original. When the
  limit is exceeded the call raises \<^verbatim>\<open>RecursionError\<close>; the copies made so far are
  unreachable then, and the store is given back as it was.
\<close>

definition deepcopy :: "nat \<Rightarrow> val \<Rightarrow> heap \<Rightarrow> (exn + val) \<times> heap" where
  "deepcopy limit v h =
     (case walk limit h [] v of
        None \<Rightarrow> (Inl RecursionError, h)
      | Some order \<Rightarrow>
          (let memo = map_of (zip order [length h ..< length h + length order])
           in (Inr (rename memo v), h @ map (\<lambda>a. map_vals (rename memo) (h ! a)) order)))"

text \<open>
  What Python's \<^verbatim>\<open>==\<close> sees of a value: its contents down to a given depth, without the
  identities of the objects. Two values are equal as Python values when their views agree
  at every depth.
\<close>

datatype tree = TNone | TBool bool | TNum int | TStr string
  | TDict "(string \<times> tree) list" | TList "tree list" | TCut

fun view :: "nat \<Rightarrow> heap \<Rightarrow> val \<Rightarrow> tree" where
  "view n h VNone = TNone"
| "view n h (VBool b) = TBool b"
| "view n h (VNum i) = TNum i"
| "view n h (VStr s) = TStr s"
| "view 0 h (VRef a) = TCut"
| "view (Suc n) h (VRef a) =
     (if length h \<le> a then TCut
      else case h ! a of
        ODict kvs \<Rightarrow> TDict (map (\<lambda>(k, v). (k, view n h v)) kvs)
      | OList vs \<Rightarrow> TList (map (view n h) vs))"

section \<open>Error\<close>

record Error =
  name :: string
  "value" :: string
  traceback_raw :: "string list"

text \<open>Python's \<^verbatim>\<open>sep.join(lines)\<close>.\<close>

fun join :: "string \<Rightarrow> string list \<Rightarrow> string" where
  "join sep [] = []"
| "join sep [x] = x"
| "join sep (x # y # ys) = x @ sep @ join sep (y # ys)"

text \<open>\<^verbatim>\<open>Error.traceback\<close>: \<^verbatim>\<open>return "\n".join(self.traceback_raw)\<close>.\<close>

definition traceback :: "Error \<Rightarrow> string" where
  "traceback e = join [CHR 0x0A] (traceback_raw e)"

section \<open>Result\<close>

record Result =
  "text" :: val
  html :: val
  markdown :: val
  svg :: val
  png :: val
  jpeg :: val
  pdf :: val
  latex :: val
  json :: val
  javascript :: val
  extra :: val
  is_main_result :: bool
  raw :: val

text \<open>
  Statements of the constructor run one after the other on the store; the first exception
  ends the run, and the store keeps what was done before it.
\<close>

definition bindE ::
  "(heap \<Rightarrow> (exn + 'a) \<times> heap) \<Rightarrow> ('a \<Rightarrow> heap \<Rightarrow> (exn + 'b) \<times> heap) \<Rightarrow> heap \<Rightarrow> (exn + 'b) \<times> heap" where
  "bindE m f h = (case m h of (Inl e, h') \<Rightarrow> (Inl e, h') | (Inr x, h') \<Rightarrow> f x h')"

definition returnE :: "'a \<Rightarrow> heap \<Rightarrow> (exn + 'a) \<times> heap" where
  "returnE x h = (Inr x, h)"

text \<open>
  \<^verbatim>\<open>Result.__init__(self, is_main_result, data)\<close>: the flag is stored as given, then
  \<^verbatim>\<open>self.raw = copy.deepcopy(data)\<close>, then the ten \<^verbatim>\<open>data.pop\<close> calls in the order of the source
  (only the first has no default), then \<^verbatim>\<open>self.extra = data\<close>, which stores the reference to
  the caller's dictionary itself. The argument \<open>data\<close> is a value: a reference when the caller
  passes a dictionary. \<open>limit\<close> is the number of nested calls the interpreter allows to
  \<^verbatim>\<open>copy.deepcopy\<close> at this point of the run.
\<close>

definition Result_init :: "nat \<Rightarrow> bool \<Rightarrow> val \<Rightarrow> heap \<Rightarrow> (exn + Result) \<times> heap" where
  "Result_init limit is_main data =
     bindE (deepcopy limit data) (\<lambda>raw_v.
     bindE (pop data ''text/plain'' None) (\<lambda>text_v.
     bindE (pop data ''text/html'' (Some VNone)) (\<lambda>html_v.
     bindE (pop data ''text/markdown'' (Some VNone)) (\<lambda>markdown_v.
     bindE (pop data ''image/svg+xml'' (Some VNone)) (\<lambda>svg_v.
     bindE (pop data ''image/png'' (Some VNone)) (\<lambda>png_v.
     bindE (pop data ''image/jpeg'' (Some VNone)) (\<lambda>jpeg_v.
     bindE (pop data ''application/pdf'' (Some VNone)) (\<lambda>pdf_v.
     bindE (pop data ''text/latex'' (Some VNone)) (\<lambda>latex_v.
     bindE (pop data ''application/json'' (Some VNone)) (\<lambda>json_v.
     bindE (pop data ''application/javascript'' (Some VNone)) (\<lambda>javascript_v.
     returnE \<lparr>text = text_v, html = html_v, markdown = markdown_v, svg = svg_v,
       png = png_v, jpeg = jpeg_v, pdf = pdf_v, latex = latex_v, json = json_v,
       javascript = javascript_v, extra = data, is_main_result = is_main,
       raw = raw_v\<rparr>)))))))))))"

text \<open>The ten MIME types that the constructor pops, in the order of the source.\<close>

definition well_known :: "string list" where
  "well_known = [''text/plain'', ''text/html'', ''text/markdown'', ''image/svg+xml'',
     ''image/png'', ''image/jpeg'', ''application/pdf'', ''text/latex'',
     ''application/json'', ''application/javascript'']"

text \<open>The value of an optional field: the popped value, or the default \<^verbatim>\<open>None\<close>.\<close>

definition or_none :: "val option \<Rightarrow> val" where
  "or_none x = (case x of Some v \<Rightarrow> v | None \<Rightarrow> VNone)"

definition strip_well_known :: "(string \<times> val) list \<Rightarrow> (string \<times> val) list" where
  "strip_well_known kvs = filter (\<lambda>kv. fst kv \<notin> set well_known) kvs"

section \<open>Logs and Execution\<close>

record Logs =
  stdout :: "string list"
  stderr :: "string list"

record Execution =
  results :: "Result list"
  logs :: Logs
  error :: "Error option"

text \<open>
  \<^verbatim>\<open>Execution.text\<close>: the loop \<^verbatim>\<open>for d in self.results: if d.is_main_result: return d.text\<close>;
  falling off the end of the function returns \<^verbatim>\<open>None\<close>.
\<close>

fun text_loop :: "Result list \<Rightarrow> val" where
  "text_loop [] = VNone"
| "text_loop (d # ds) = (if is_main_result d then text d else text_loop ds)"

definition Execution_text :: "Execution \<Rightarrow> val" where
  "Execution_text e = text_loop (results e)"

section \<open>Example states\<close>

text \<open>
  A caller's store: the MIME bundle at address 0 holds a plain text, a PNG, a JSON payload
  that is a list containing a number and itself, and a custom entry sharing that list.
\<close>

definition bundle_items :: "(string \<times> val) list" where
  "bundle_items = [(''text/plain'', VStr ''42''), (''image/png'', VStr ''iVBORw0K''),
     (''application/json'', VRef 1), (''application/x-custom'', VRef 1)]"

definition bundle_heap :: heap where
  "bundle_heap = [ODict bundle_items, OList [VNum 7, VRef 1]]"


text \<open>The mapping \<^verbatim>\<open>{"text/plain": "hi", "application/x-custom": "xyz"}\<close> at address 0.\<close>

definition custom_heap :: heap where
  "custom_heap = [ODict [(''text/plain'', VStr ''hi''), (''application/x-custom'', VStr ''xyz'')]]"

text \<open>
  What the constructor returns for the bundle (with at least three nested calls allowed):
  the Result, and the store after the call, where the copy occupies addresses 2 and 3.
\<close>

definition bundle_result :: Result where
  "bundle_result = \<lparr>text = VStr ''42'', html = VNone, markdown = VNone, svg = VNone,
     png = VStr ''iVBORw0K'', jpeg = VNone, pdf = VNone, latex = VNone, json = VRef 1,
     javascript = VNone, extra = VRef 0, is_main_result = True, raw = VRef 2\<rparr>"

definition bundle_after :: heap where
  "bundle_after = [ODict [(''application/x-custom'', VRef 1)], OList [VNum 7, VRef 1],
     ODict [(''text/plain'', VStr ''42''), (''image/png'', VStr ''iVBORw0K''),
       (''application/json'', VRef 3), (''application/x-custom'', VRef 3)],
     OList [VNum 7, VRef 3]]"

definition custom_result :: Result where
  "custom_result = \<lparr>text = VStr ''hi'', html = VNone, markdown = VNone, svg = VNone,
     png = VNone, jpeg = VNone, pdf = VNone, latex = VNone, json = VNone,
     javascript = VNone, extra = VRef 0, is_main_result = True, raw = VRef 1\<rparr>"

definition custom_after :: heap where
  "custom_after = [ODict [(''application/x-custom'', VStr ''xyz'')],
     ODict [(''text/plain'', VStr ''hi''), (''application/x-custom'', VStr ''xyz'')]]"

text \<open>
  A payload nested \<open>n + 2\<close> containers deep: the mapping
  \<^verbatim>\<open>{key: "42", "application/json": [[...[]...]]}\<close> at address 0, the lists at the addresses
  \<open>1\<close> to \<open>n + 1\<close>, each but the last holding the next.
\<close>

definition nested_heap :: "string \<Rightarrow> nat \<Rightarrow> heap" where
  "nested_heap key n =
     ODict [(key, VStr ''42''), (''application/json'', VRef 1)]
     # map (\<lambda>i. OList (if i \<le> n then [VRef (Suc i)] else [])) [1 ..< n + 2]"



definition display_result :: Result where
  "display_result = \<lparr>text = VStr ''<Figure>'', html = VNone, markdown = VNone, svg = VNone,
     png = VStr ''iVBORw0K'', jpeg = VNone, pdf = VNone, latex = VNone, json = VNone,
     javascript = VNone, extra = VRef 0, is_main_result = False, raw = VRef 1\<rparr>"

definition main_result :: Result where
  "main_result = \<lparr>text = VStr ''42'', html = VNone, markdown = VNone, svg = VNone,
     png = VNone, jpeg = VNone, pdf = VNone, latex = VNone, json = VNone,
     javascript = VNone, extra = VRef 2, is_main_result = True, raw = VRef 3\<rparr>"

definition two_results :: Execution where
  "two_results = \<lparr>results = [display_result, main_result],
     logs = \<lparr>stdout = [], stderr = []\<rparr>, error = None\<rparr>"

section \<open>Error.traceback\<close>

lemma join_closed_form:
  "join sep (l # ls) = l @ concat (map (\<lambda>x. sep @ x) ls)"
  by (induction ls arbitrary: l) simp_all

text \<open>
  Claim C8. For every Error, \<^verbatim>\<open>traceback\<close> is the lines of \<^verbatim>\<open>traceback_raw\<close> joined with
  newline separators: the first line, then each further line behind a newline. The
  accessor is a function of the record and returns a string only, so \<^verbatim>\<open>traceback_raw\<close>
  stays as it is. For \<^verbatim>\<open>["line1", "line2"]\<close> the result is \<^verbatim>\<open>"line1\nline2"\<close>.
\<close>

theorem traceback_joins_lines:
  "traceback e =
     (case traceback_raw e of [] \<Rightarrow> [] | l # ls \<Rightarrow> l @ concat (map (\<lambda>x. CHR 0x0A # x) ls))
   \<and> traceback \<lparr>name = n, value = v, traceback_raw = [''line1'', ''line2'']\<rparr>
       = ''line1'' @ [CHR 0x0A] @ ''line2''"
  by (cases "traceback_raw e") (simp_all add: traceback_def join_closed_form)

text \<open>
  Claim C10. For an Error whose \<^verbatim>\<open>traceback_raw\<close> is the empty list, \<^verbatim>\<open>traceback\<close> is the
  empty string: a string value, not \<^verbatim>\<open>None\<close>, and no exception.
\<close>

theorem traceback_empty:
  "traceback \<lparr>name = n, value = v, traceback_raw = []\<rparr> = []"
  by (simp add: traceback_def)

section \<open>Execution.text\<close>

lemma text_loop_first:
  "i < length rs \<Longrightarrow> is_main_result (rs ! i) \<Longrightarrow> (\<forall>j<i. \<not> is_main_result (rs ! j))
     \<Longrightarrow> text_loop rs = text (rs ! i)"
proof (induction rs arbitrary: i)
  case Nil
  then show ?case by simp
next
  case (Cons d ds)
  show ?case
  proof (cases i)
    case 0
    with Cons.prems show ?thesis by simp
  next
    case (Suc k)
    from Cons.prems Suc have "\<not> is_main_result d" by auto
    moreover have "text_loop ds = text (ds ! k)"
      using Cons.prems Suc by (intro Cons.IH) auto
    ultimately show ?thesis using Suc by simp
  qed
qed

lemma text_loop_none:
  "(\<forall>d \<in> set rs. \<not> is_main_result d) \<Longrightarrow> text_loop rs = VNone"
  by (induction rs) simp_all

text \<open>
  Claim C7. For every Execution, \<^verbatim>\<open>text\<close> is the \<^verbatim>\<open>text\<close> field of the first Result in
  \<^verbatim>\<open>results\<close> whose \<^verbatim>\<open>is_main_result\<close> is true. It is \<^verbatim>\<open>None\<close> when \<^verbatim>\<open>results\<close> is empty or
  no Result is marked main; the accessor has no exception among its results. For two
  Results of which only the second is main, it is the second Result's text.
\<close>

theorem Execution_text_first_main:
  "(\<forall>i < length (results e).
       is_main_result (results e ! i) \<and> (\<forall>j<i. \<not> is_main_result (results e ! j))
       \<longrightarrow> Execution_text e = text (results e ! i))
   \<and> (results e = [] \<longrightarrow> Execution_text e = VNone)
   \<and> ((\<forall>d \<in> set (results e). \<not> is_main_result d) \<longrightarrow> Execution_text e = VNone)
   \<and> (results e = [r1, r2] \<and> \<not> is_main_result r1 \<and> is_main_result r2
        \<longrightarrow> Execution_text e = text r2)"
  by (auto simp: Execution_text_def text_loop_first text_loop_none)

theorem Execution_text_first_main_witness:
  "results two_results = [display_result, main_result]
   \<and> \<not> is_main_result display_result \<and> is_main_result main_result
   \<and> Execution_text two_results = VStr ''42''
   \<and> Execution_text \<lparr>results = [], logs = \<lparr>stdout = [], stderr = []\<rparr>, error = None\<rparr> = VNone
   \<and> Execution_text \<lparr>results = [display_result], logs = \<lparr>stdout = [], stderr = []\<rparr>,
         error = None\<rparr> = VNone"
  using Execution_text_first_main [of two_results display_result main_result]
    Execution_text_first_main [of "\<lparr>results = [], logs = \<lparr>stdout = [], stderr = []\<rparr>, error = None\<rparr>"]
    Execution_text_first_main [of "\<lparr>results = [display_result], logs = \<lparr>stdout = [], stderr = []\<rparr>,
       error = None\<rparr>"]
  by (simp add: two_results_def display_result_def main_result_def)


section \<open>Properties of the store operations\<close>

subsection \<open>The recursion of \<open>deepcopy\<close>\<close>

lemma walk_prefix:
  "walk n h vis v = Some vis' \<Longrightarrow> \<exists>xs. vis' = vis @ xs"
  "walk_list n h vis vs = Some vis' \<Longrightarrow> \<exists>xs. vis' = vis @ xs"
proof (induction n h vis v and n h vis vs arbitrary: vis' and vis' rule: walk_walk_list.induct)
  case (5 n h vis v vs)
  from "5.prems" obtain vis1 where w: "walk n h vis v = Some vis1"
    and l: "walk_list n h vis1 vs = Some vis'"
    by (auto split: option.splits)
  from "5.IH"(1) [OF w] "5.IH"(2) [OF w l] show ?case by auto
qed (auto split: if_splits)

lemma walk_mono:
  "walk n h vis v = Some vis' \<Longrightarrow> set vis \<subseteq> set vis'"
  "walk_list n h vis vs = Some vis' \<Longrightarrow> set vis \<subseteq> set vis'"
  using walk_prefix by fastforce+

lemma walk_distinct:
  "walk n h vis v = Some vis' \<Longrightarrow> distinct vis \<Longrightarrow> distinct vis'"
  "walk_list n h vis vs = Some vis' \<Longrightarrow> distinct vis \<Longrightarrow> distinct vis'"
proof (induction n h vis v and n h vis vs arbitrary: vis' and vis' rule: walk_walk_list.induct)
  case (5 n h vis v vs)
  from "5.prems" obtain vis1 where w: "walk n h vis v = Some vis1"
    and l: "walk_list n h vis1 vs = Some vis'"
    by (auto split: option.splits)
  from "5.IH"(1) [OF w "5.prems"(2)] "5.IH"(2) [OF w l] show ?case by auto
qed (auto split: if_splits)

lemma walk_in_range:
  "walk n h vis v = Some vis' \<Longrightarrow> set vis \<subseteq> {..<length h} \<Longrightarrow> set vis' \<subseteq> {..<length h}"
  "walk_list n h vis vs = Some vis' \<Longrightarrow> set vis \<subseteq> {..<length h} \<Longrightarrow> set vis' \<subseteq> {..<length h}"
proof (induction n h vis v and n h vis vs arbitrary: vis' and vis' rule: walk_walk_list.induct)
  case (5 n h vis v vs)
  from "5.prems" obtain vis1 where w: "walk n h vis v = Some vis1"
    and l: "walk_list n h vis1 vs = Some vis'"
    by (auto split: option.splits)
  from "5.IH"(1) [OF w "5.prems"(2)] "5.IH"(2) [OF w l] show ?case by auto
qed (auto split: if_splits)

lemma walk_ref_visited:
  assumes "walk n h vis (VRef a) = Some vis'" and "a < length h"
  shows "a \<in> set vis'"
proof (cases n)
  case 0
  with assms show ?thesis by simp
next
  case (Suc k)
  show ?thesis
  proof (cases "a \<in> set vis")
    case True
    with assms Suc show ?thesis by simp
  next
    case False
    with assms Suc have "walk_list k h (vis @ [a]) (vals_of (h ! a)) = Some vis'"
      by simp
    from walk_mono(2) [OF this] show ?thesis by simp
  qed
qed

lemma walk_list_refs_visited:
  "walk_list n h vis vs = Some vis' \<Longrightarrow> v \<in> set vs \<Longrightarrow> b \<in> set (refs_of_val v)
     \<Longrightarrow> b < length h \<Longrightarrow> b \<in> set vis'"
proof (induction vs arbitrary: vis)
  case Nil
  then show ?case by simp
next
  case (Cons u us)
  from Cons.prems(1) obtain vis1 where w: "walk n h vis u = Some vis1"
    and l: "walk_list n h vis1 us = Some vis'"
    by (auto split: option.splits)
  show ?case
  proof (cases "v = u")
    case True
    with Cons.prems(3) have u: "u = VRef b" by (cases u) simp_all
    have "b \<in> set vis1"
      using walk_ref_visited w u Cons.prems(4) by blast
    with walk_mono(2) [OF l] show ?thesis by blast
  next
    case False
    with Cons.prems(2) have "v \<in> set us" by simp
    from Cons.IH [OF l this Cons.prems(3,4)] show ?thesis .
  qed
qed

lemma walk_new_closed:
  "walk n h vis v = Some vis' \<Longrightarrow> a \<in> set vis' \<Longrightarrow> a \<notin> set vis
     \<Longrightarrow> b \<in> set (refs_of (h ! a)) \<Longrightarrow> b < length h \<Longrightarrow> b \<in> set vis'"
  "walk_list n h vis vs = Some vis' \<Longrightarrow> a \<in> set vis' \<Longrightarrow> a \<notin> set vis
     \<Longrightarrow> b \<in> set (refs_of (h ! a)) \<Longrightarrow> b < length h \<Longrightarrow> b \<in> set vis'"
proof (induction n h vis v and n h vis vs arbitrary: vis' and vis' rule: walk_walk_list.induct)
  case (1 h vis v)
  then show ?case by simp
next
  case (2 n h vis c)
  show ?case
  proof (cases "c \<in> set vis \<or> length h \<le> c")
    case True
    with "2.prems"(1) have "vis' = vis" by simp
    with "2.prems"(2,3) show ?thesis by simp
  next
    case False
    with "2.prems"(1) have l: "walk_list n h (vis @ [c]) (vals_of (h ! c)) = Some vis'"
      by simp
    show ?thesis
    proof (cases "a = c")
      case True
      from "2.prems"(4) True obtain v where "v \<in> set (vals_of (h ! c))" "b \<in> set (refs_of_val v)"
        by (auto simp: refs_of_def)
      from walk_list_refs_visited [OF l this "2.prems"(5)] show ?thesis .
    next
      case ne: False
      with "2.prems"(3) have "a \<notin> set (vis @ [c])" by simp
      from "2.IH" [OF False l "2.prems"(2) this "2.prems"(4,5)] show ?thesis .
    qed
  qed
next
  case (4 n h vis)
  then show ?case by simp
next
  case (5 n h vis v vs)
  from "5.prems"(1) obtain vis1 where w: "walk n h vis v = Some vis1"
    and l: "walk_list n h vis1 vs = Some vis'"
    by (auto split: option.splits)
  show ?case
  proof (cases "a \<in> set vis1")
    case True
    from "5.IH"(1) [OF w True "5.prems"(3,4,5)] have "b \<in> set vis1" .
    with walk_mono(2) [OF l] show ?thesis by blast
  next
    case False
    from "5.IH"(2) [OF w l "5.prems"(2) False "5.prems"(4,5)] show ?thesis .
  qed
qed simp_all

lemma walk_root:
  assumes "d < length h" and "walk n h [] (VRef d) = Some order"
  shows "d \<in> set order"
  using walk_ref_visited [OF assms(2,1)] .

lemma walk_all_closed:
  assumes "walk n h [] v = Some order"
  shows "\<forall>a \<in> set order. \<forall>b \<in> set (refs_of (h ! a)). b < length h \<longrightarrow> b \<in> set order"
  using walk_new_closed(1) [OF assms] by simp



subsection \<open>The copy\<close>

lemma memo_nth:
  assumes "distinct order" and "i < length order"
  shows "map_of (zip order [n ..< n + length order]) (order ! i) = Some (n + i)"
proof -
  have "map_of (zip order [n ..< n + length order]) (order ! i) = Some ([n ..< n + length order] ! i)"
    using assms by (intro map_of_zip_nth) simp_all
  then show ?thesis using assms by simp
qed

lemma refs_of_val_subset:
  "v \<in> set (vals_of ob) \<Longrightarrow> set (refs_of_val v) \<subseteq> set (refs_of ob)"
  by (auto simp: refs_of_def)

lemma copy_view:
  assumes dist: "distinct order" and rng: "set order \<subseteq> {..<length h}"
    and closed: "\<forall>a \<in> set order. set (refs_of (h ! a)) \<subseteq> set order"
    and memo: "memo = map_of (zip order [length h ..< length h + length order])"
    and len: "length h + length order \<le> length h2"
    and news: "\<forall>i < length order. h2 ! (length h + i) = map_vals (rename memo) (h ! (order ! i))"
  shows "set (refs_of_val v) \<subseteq> set order \<Longrightarrow> view n h2 (rename memo v) = view n h v"
proof (induction n arbitrary: v)
  case 0
  then show ?case by (cases v) (auto split: option.splits)
next
  case (Suc n)
  show ?case
  proof (cases v)
    case (VRef a)
    with Suc.prems have "a \<in> set order" by simp
    then obtain i where i: "i < length order" "order ! i = a"
      by (auto simp: in_set_conv_nth)
    have a: "a < length h" using \<open>a \<in> set order\<close> rng by auto
    have m: "memo a = Some (length h + i)"
      using memo_nth [OF dist i(1), of "length h"] i(2) memo by simp
    have new: "h2 ! (length h + i) = map_vals (rename memo) (h ! a)"
      using news i by auto
    have inb: "\<not> length h2 \<le> length h + i" using len i(1) by simp
    have sub: "\<And>w. w \<in> set (vals_of (h ! a)) \<Longrightarrow> set (refs_of_val w) \<subseteq> set order"
      using refs_of_val_subset closed \<open>a \<in> set order\<close> by blast
    have ih: "\<And>w. w \<in> set (vals_of (h ! a)) \<Longrightarrow> view n h2 (rename memo w) = view n h w"
      using Suc.IH sub by blast
    show ?thesis
    proof (cases "h ! a")
      case (ODict kvs)
      have "map (\<lambda>(k, w). (k, view n h2 w)) (map (\<lambda>(k, w). (k, rename memo w)) kvs)
          = map (\<lambda>(k, w). (k, view n h w)) kvs"
        using ih ODict by (force simp: image_iff)
      then show ?thesis using VRef m new inb a ODict by simp
    next
      case (OList vs)
      have "map (view n h2) (map (rename memo) vs) = map (view n h) vs"
        using ih OList by auto
      then show ?thesis using VRef m new inb a OList by simp
    qed
  qed simp_all
qed


lemma deepcopy_outcomes:
  "deepcopy limit v h = (Inl RecursionError, h) \<or> (\<exists>c news. deepcopy limit v h = (Inr c, h @ news))"
  by (simp add: deepcopy_def Let_def split: option.splits)

lemma deepcopy_raised:
  assumes "deepcopy limit v h = (Inl e, h1)"
  shows "e = RecursionError \<and> h1 = h"
  using assms deepcopy_outcomes [of limit v h] by auto

lemma deepcopy_appends:
  assumes "deepcopy limit v h = (Inr c, h1)"
  shows "\<exists>news. h1 = h @ news"
  using assms deepcopy_outcomes [of limit v h] by auto

lemma deepcopy_old:
  assumes "deepcopy limit v h = (Inr c, h1)" and "a < length h"
  shows "h1 ! a = h ! a"
  using deepcopy_appends [OF assms(1)] assms(2) by (auto simp: nth_append)

lemma deepcopy_length:
  assumes "deepcopy limit v h = (Inr c, h1)"
  shows "length h \<le> length h1"
  using deepcopy_appends [OF assms] by auto


lemma deepcopy_fresh:
  assumes d: "d < length h" and dc: "deepcopy limit (VRef d) h = (Inr c, h1)"
  shows "\<exists>b. c = VRef b \<and> length h \<le> b \<and> b < length h1"
proof -
  from dc obtain order where w: "walk limit h [] (VRef d) = Some order"
    by (auto simp: deepcopy_def split: option.splits)
  have dist: "distinct order" using walk_distinct(1) [OF w] by simp
  have "d \<in> set order" using d w by (rule walk_root)
  then obtain i where i: "i < length order" "order ! i = d"
    by (auto simp: in_set_conv_nth)
  have "map_of (zip order [length h ..< length h + length order]) d = Some (length h + i)"
    using memo_nth [OF dist i(1), of "length h"] i(2) by simp
  moreover have "length h1 = length h + length order"
    using dc w by (auto simp: deepcopy_def Let_def)
  ultimately show ?thesis
    using dc w i(1) by (auto simp: deepcopy_def Let_def)
qed

lemma deepcopy_view:
  assumes wf: "wf_heap h" and d: "d < length h"
    and dc: "deepcopy limit (VRef d) h = (Inr c, h1)"
    and len: "length h1 \<le> length h2"
    and same: "\<forall>a. length h \<le> a \<and> a < length h1 \<longrightarrow> h2 ! a = h1 ! a"
  shows "view n h2 c = view n h (VRef d)"
proof -
  from dc obtain order where w: "walk limit h [] (VRef d) = Some order"
    by (auto simp: deepcopy_def split: option.splits)
  define memo where "memo = map_of (zip order [length h ..< length h + length order])"
  have c: "c = rename memo (VRef d)"
    and h1: "h1 = h @ map (\<lambda>a. map_vals (rename memo) (h ! a)) order"
    using dc w by (auto simp: deepcopy_def Let_def memo_def)
  have dist: "distinct order" using walk_distinct(1) [OF w] by simp
  have rng: "set order \<subseteq> {..<length h}" using walk_in_range(1) [OF w] by simp
  have "\<forall>a \<in> set order. \<forall>b \<in> set (refs_of (h ! a)). b < length h \<longrightarrow> b \<in> set order"
    using w by (rule walk_all_closed)
  moreover have "\<forall>a \<in> set order. \<forall>b \<in> set (refs_of (h ! a)). b < length h"
    using wf rng unfolding wf_heap_def by (metis lessThan_iff nth_mem subsetD)
  ultimately have closed: "\<forall>a \<in> set order. set (refs_of (h ! a)) \<subseteq> set order"
    by blast
  have len2: "length h + length order \<le> length h2"
    using len h1 by simp
  have news: "\<forall>i < length order. h2 ! (length h + i) = map_vals (rename memo) (h ! (order ! i))"
  proof (intro allI impI)
    fix i assume i: "i < length order"
    then have "h2 ! (length h + i) = h1 ! (length h + i)"
      using same h1 by simp
    also have "\<dots> = map_vals (rename memo) (h ! (order ! i))"
      using i h1 by (simp add: nth_append)
    finally show "h2 ! (length h + i) = map_vals (rename memo) (h ! (order ! i))" .
  qed
  have "set (refs_of_val (VRef d)) \<subseteq> set order"
    using walk_root [OF d w] by simp
  from copy_view [OF dist rng closed memo_def len2 news this] c show ?thesis
    by simp
qed

subsection \<open>\<open>pop\<close> and the constructor\<close>

lemma map_of_del_key: "map_of (del_key key kvs) k = (if k = key then None else map_of kvs k)"
  by (induction kvs) (auto simp: del_key_def)

lemma del_key_absent: "map_of kvs key = None \<Longrightarrow> del_key key kvs = kvs"
  by (induction kvs) (auto simp: del_key_def split: if_splits)

lemma pop_default_dict:
  "d < length h \<Longrightarrow>
   pop (VRef d) key (Some dv) (h[d := ODict kvs]) =
     (Inr (case map_of kvs key of Some v \<Rightarrow> v | None \<Rightarrow> dv), h[d := ODict (del_key key kvs)])"
  by (cases "map_of kvs key") (simp_all add: del_key_absent)

lemma pop_required_dict:
  "d < length h \<Longrightarrow>
   pop (VRef d) key None (h[d := ODict kvs]) =
     (case map_of kvs key of
        Some v \<Rightarrow> (Inr v, h[d := ODict (del_key key kvs)])
      | None \<Rightarrow> (Inl (KeyError key), h[d := ODict kvs]))"
  by (cases "map_of kvs key") simp_all

lemma del_key_as_filter: "del_key key kvs = filter (\<lambda>kv. fst kv \<noteq> key) kvs"
  by (induction kvs) (auto simp: del_key_def)

lemma del_all_well_known:
  "del_key ''application/javascript'' (del_key ''application/json'' (del_key ''text/latex''
     (del_key ''application/pdf'' (del_key ''image/jpeg'' (del_key ''image/png''
     (del_key ''image/svg+xml'' (del_key ''text/markdown'' (del_key ''text/html''
     (del_key ''text/plain'' kvs)))))))))
   = strip_well_known kvs"
  unfolding strip_well_known_def del_key_as_filter filter_filter well_known_def
  by (rule filter_cong) auto

lemma Result_init_raises:
  assumes "deepcopy limit data h = (Inl e, h1)"
  shows "Result_init limit m data h = (Inl e, h1)"
  unfolding Result_init_def by (simp add: bindE_def assms)

lemma Result_init_dict:
  assumes d: "d < length h" and hd: "h ! d = ODict kvs"
    and t: "map_of kvs ''text/plain'' = Some t"
    and dc: "deepcopy limit (VRef d) h = (Inr c, h1)"
  shows "Result_init limit m (VRef d) h =
    (Inr \<lparr>text = t,
          html = or_none (map_of kvs ''text/html''),
          markdown = or_none (map_of kvs ''text/markdown''),
          svg = or_none (map_of kvs ''image/svg+xml''),
          png = or_none (map_of kvs ''image/png''),
          jpeg = or_none (map_of kvs ''image/jpeg''),
          pdf = or_none (map_of kvs ''application/pdf''),
          latex = or_none (map_of kvs ''text/latex''),
          json = or_none (map_of kvs ''application/json''),
          javascript = or_none (map_of kvs ''application/javascript''),
          extra = VRef d, is_main_result = m, raw = c\<rparr>,
     h1[d := ODict (strip_well_known kvs)])"
proof -
  have d1: "d < length h1"
    using d deepcopy_length [OF dc] by simp
  have "h1 ! d = ODict kvs"
    using d hd deepcopy_old [OF dc] by simp
  then have h1: "h1 = h1[d := ODict kvs]"
    by (metis list_update_id)
  have "Result_init limit m (VRef d) h =
    (Inr \<lparr>text = t,
          html = or_none (map_of kvs ''text/html''),
          markdown = or_none (map_of kvs ''text/markdown''),
          svg = or_none (map_of kvs ''image/svg+xml''),
          png = or_none (map_of kvs ''image/png''),
          jpeg = or_none (map_of kvs ''image/jpeg''),
          pdf = or_none (map_of kvs ''application/pdf''),
          latex = or_none (map_of kvs ''text/latex''),
          json = or_none (map_of kvs ''application/json''),
          javascript = or_none (map_of kvs ''application/javascript''),
          extra = VRef d, is_main_result = m, raw = c\<rparr>,
     h1[d := ODict (del_key ''application/javascript'' (del_key ''application/json'' (del_key ''text/latex''
     (del_key ''application/pdf'' (del_key ''image/jpeg'' (del_key ''image/png''
     (del_key ''image/svg+xml'' (del_key ''text/markdown'' (del_key ''text/html''
     (del_key ''text/plain'' kvs))))))))))])"
    unfolding Result_init_def
    apply (simp only: bindE_def dc prod.case sum.case)
    apply (subst h1)
    apply (simp only: pop_required_dict [OF d1] pop_default_dict [OF d1] t option.case prod.case sum.case
        returnE_def map_of_del_key or_none_def)
    apply simp
    done
  then show ?thesis
    by (simp only: del_all_well_known)
qed

lemma map_of_strip_well_known:
  "map_of (strip_well_known kvs) k = (if k \<in> set well_known then None else map_of kvs k)"
  by (induction kvs) (auto simp: strip_well_known_def)


lemma Result_init_returns:
  assumes d: "d < length h" and hd: "h ! d = ODict kvs"
    and t: "map_of kvs ''text/plain'' = Some t"
    and run: "Result_init limit m (VRef d) h = (Inr r, h')"
  shows "\<exists>c h1. deepcopy limit (VRef d) h = (Inr c, h1)
     \<and> r = \<lparr>text = t,
          html = or_none (map_of kvs ''text/html''),
          markdown = or_none (map_of kvs ''text/markdown''),
          svg = or_none (map_of kvs ''image/svg+xml''),
          png = or_none (map_of kvs ''image/png''),
          jpeg = or_none (map_of kvs ''image/jpeg''),
          pdf = or_none (map_of kvs ''application/pdf''),
          latex = or_none (map_of kvs ''text/latex''),
          json = or_none (map_of kvs ''application/json''),
          javascript = or_none (map_of kvs ''application/javascript''),
          extra = VRef d, is_main_result = m, raw = c\<rparr>
     \<and> h' = h1[d := ODict (strip_well_known kvs)]"
proof -
  obtain res h1 where dc: "deepcopy limit (VRef d) h = (res, h1)"
    by (cases "deepcopy limit (VRef d) h")
  show ?thesis
  proof (cases res)
    case (Inl e)
    with Result_init_raises [of limit "VRef d" h e h1 m] dc run show ?thesis by simp
  next
    case (Inr c)
    with Result_init_dict [OF d hd t, of limit c h1 m] dc run show ?thesis by simp
  qed
qed

subsection \<open>Example runs\<close>

lemma bundle_at: "bundle_heap ! 0 = ODict bundle_items"
  by (simp add: bundle_heap_def)

lemma bundle_length: "0 < length bundle_heap"
  by (simp add: bundle_heap_def)

lemma bundle_text: "map_of bundle_items ''text/plain'' = Some (VStr ''42'')"
  by (simp add: bundle_items_def)

lemma bundle_wf: "wf_heap bundle_heap"
  by (simp add: wf_heap_def bundle_heap_def bundle_items_def refs_of_def)

lemma bundle_run: "Result_init 3 True (VRef 0) bundle_heap = (Inr bundle_result, bundle_after)"
  by (simp add: eval_nat_numeral Result_init_def bindE_def returnE_def deepcopy_def del_key_def
      bundle_heap_def bundle_items_def bundle_result_def bundle_after_def)

lemma custom_at:
  "custom_heap ! 0 = ODict [(''text/plain'', VStr ''hi''), (''application/x-custom'', VStr ''xyz'')]"
  by (simp add: custom_heap_def)

lemma custom_length: "0 < length custom_heap"
  by (simp add: custom_heap_def)

lemma custom_text:
  "map_of [(''text/plain'', VStr ''hi''), (''application/x-custom'', VStr ''xyz'')] ''text/plain''
     = Some (VStr ''hi'')"
  by simp

lemma custom_run: "Result_init 2 True (VRef 0) custom_heap = (Inr custom_result, custom_after)"
  by (simp add: eval_nat_numeral Result_init_def bindE_def returnE_def deepcopy_def del_key_def
      custom_heap_def custom_result_def custom_after_def)

subsection \<open>Payloads nested deeper than the limit\<close>

lemma nested_heap_length: "length (nested_heap key n) = n + 2"
  by (simp add: nested_heap_def)






lemma nested_wf: "wf_heap (nested_heap key n)"
  unfolding wf_heap_def
proof (intro ballI)
  fix ob a assume ob: "ob \<in> set (nested_heap key n)" and a: "a \<in> set (refs_of ob)"
  from ob have "ob = ODict [(key, VStr ''42''), (''application/json'', VRef 1)]
      \<or> ob \<in> (\<lambda>i. OList (if i \<le> n then [VRef (Suc i)] else [])) ` {1 ..< n + 2}"
    unfolding nested_heap_def list.set(2) set_map set_upt by blast
  then show "a < length (nested_heap key n)"
  proof
    assume "ob = ODict [(key, VStr ''42''), (''application/json'', VRef 1)]"
    with a show ?thesis by (simp add: refs_of_def nested_heap_length)
  next
    assume "ob \<in> (\<lambda>i. OList (if i \<le> n then [VRef (Suc i)] else [])) ` {1 ..< n + 2}"
    then obtain i where "ob = OList (if i \<le> n then [VRef (Suc i)] else [])"
      by blast
    with a show ?thesis
      by (cases "i \<le> n") (simp_all add: refs_of_def nested_heap_length)
  qed
qed

section \<open>Result construction\<close>







text \<open>
  Claim C3, as stated: the constructor never mutates the caller's original mapping, which
  is unchanged after construction returns. The code pops from the caller's dictionary
  itself: for the mapping \<^verbatim>\<open>{"text/plain": "hi", "application/x-custom": "xyz"}\<close> the
  caller's dictionary holds only the custom entry afterwards.
\<close>

theorem Result_init_changes_caller_mapping:
  "custom_heap ! 0 = ODict [(''text/plain'', VStr ''hi''), (''application/x-custom'', VStr ''xyz'')]
   \<and> snd (Result_init 2 True (VRef 0) custom_heap) ! 0 = ODict [(''application/x-custom'', VStr ''xyz'')]
   \<and> snd (Result_init 2 True (VRef 0) custom_heap) ! 0 \<noteq> custom_heap ! 0"
  by (simp add: eval_nat_numeral custom_heap_def Result_init_def bindE_def returnE_def
      deepcopy_def del_key_def)

text \<open>
  Claim C3, amended. For every input mapping containing \<^verbatim>\<open>"text/plain"\<close>, the constructor's
  effect on its caller, beyond producing the new value, is confined to the caller's
  mapping, from which the constructor pops the well-known keys: however the call ends,
  every other object that existed before the call is unchanged, nothing is deallocated,
  and in the caller's mapping every key that is not one of the ten well-known keys keeps
  its value; when the constructor returns, the mapping has none of the well-known keys.
\<close>

theorem Result_init_frame:
  assumes d: "d < length h" and hd: "h ! d = ODict kvs"
    and t: "map_of kvs ''text/plain'' = Some t"
    and run: "Result_init limit m (VRef d) h = (res, h')"
  shows "length h \<le> length h'
     \<and> (\<forall>a < length h. a \<noteq> d \<longrightarrow> h' ! a = h ! a)
     \<and> (\<exists>es. h' ! d = ODict es
          \<and> (\<forall>k. k \<notin> set well_known \<longrightarrow> map_of es k = map_of kvs k)
          \<and> ((\<exists>r. res = Inr r) \<longrightarrow> (\<forall>k \<in> set well_known. map_of es k = None)))"
proof -
  obtain x h1 where dc: "deepcopy limit (VRef d) h = (x, h1)"
    by (cases "deepcopy limit (VRef d) h")
  show ?thesis
  proof (cases x)
    case (Inl e)
    with dc have "h1 = h" using deepcopy_raised by blast
    with Result_init_raises [of limit "VRef d" h e h1 m] dc Inl run
    have "h' = h" and "res = Inl e" by simp_all
    with hd show ?thesis by simp
  next
    case (Inr c)
    with dc have dc': "deepcopy limit (VRef d) h = (Inr c, h1)" by simp
    have h': "h' = h1[d := ODict (strip_well_known kvs)]"
      using Result_init_dict [OF d hd t dc', of m] run by simp
    have len: "length h \<le> length h'"
      using deepcopy_length [OF dc'] h' by simp
    have others: "\<forall>a < length h. a \<noteq> d \<longrightarrow> h' ! a = h ! a"
      using deepcopy_old [OF dc'] h' by simp
    have at: "h' ! d = ODict (strip_well_known kvs)"
      using d len h' by simp
    have kept: "\<forall>k. k \<notin> set well_known \<longrightarrow> map_of (strip_well_known kvs) k = map_of kvs k"
      by (simp add: map_of_strip_well_known)
    have gone: "\<forall>k \<in> set well_known. map_of (strip_well_known kvs) k = None"
      by (simp add: map_of_strip_well_known)
    from len others at kept gone show ?thesis by blast
  qed
qed

theorem Result_init_frame_witness:
  "(0::nat) < length bundle_heap \<and> bundle_heap ! 0 = ODict bundle_items
   \<and> map_of bundle_items ''text/plain'' = Some (VStr ''42'')
   \<and> Result_init 3 True (VRef 0) bundle_heap = (Inr bundle_result, bundle_after)
   \<and> length bundle_heap \<le> length bundle_after
   \<and> bundle_after ! 1 = bundle_heap ! 1
   \<and> (\<exists>es. bundle_after ! 0 = ODict es
        \<and> (\<forall>k. k \<notin> set well_known \<longrightarrow> map_of es k = map_of bundle_items k)
        \<and> (\<forall>k \<in> set well_known. map_of es k = None))"
proof -
  note frame = Result_init_frame [OF bundle_length bundle_at bundle_text bundle_run]
  have "(1::nat) < length bundle_heap"
    by (simp add: bundle_heap_def)
  with frame have "bundle_after ! 1 = bundle_heap ! 1"
    by simp
  moreover from frame have "\<exists>es. bundle_after ! 0 = ODict es
        \<and> (\<forall>k. k \<notin> set well_known \<longrightarrow> map_of es k = map_of bundle_items k)
        \<and> (\<forall>k \<in> set well_known. map_of es k = None)"
    by blast
  moreover from frame have "length bundle_heap \<le> length bundle_after"
    by blast
  ultimately show ?thesis
    using bundle_length bundle_at bundle_text bundle_run by blast
qed

text \<open>
  Claim C4. For every input mapping containing \<^verbatim>\<open>"text/plain"\<close>, after construction
  \<^verbatim>\<open>result.raw\<close> is a deep copy of the original input mapping: a fresh object whose contents
  equal, at every depth, those the input had when the constructor was called; whatever is
  done afterwards to the objects that existed before the call (the input mapping and all
  that it holds), \<^verbatim>\<open>result.raw\<close> keeps these contents; and no item of the input is lost:
  each is held by the named field of its well-known key or by \<^verbatim>\<open>extra\<close>, as well as by
  \<^verbatim>\<open>raw\<close>. The store is assumed well formed (no reference points outside it).
\<close>

theorem Result_raw_deep_copy:
  assumes wf: "wf_heap h"
    and d: "d < length h" and hd: "h ! d = ODict kvs" and t: "map_of kvs ''text/plain'' = Some t"
    and run: "Result_init limit m (VRef d) h = (Inr r, h')"
  shows "\<exists>es. h' ! d = ODict es
     \<and> (\<exists>c. raw r = VRef c \<and> length h \<le> c \<and> c < length h')
     \<and> (\<forall>n. view n h' (raw r) = view n h (VRef d))
     \<and> (\<forall>h'' n. length h' \<le> length h''
            \<and> (\<forall>a. length h \<le> a \<and> a < length h' \<longrightarrow> h'' ! a = h' ! a)
          \<longrightarrow> view n h'' (raw r) = view n h (VRef d))
     \<and> (\<forall>k v. map_of kvs k = Some v \<longrightarrow>
            (k = ''text/plain'' \<and> text r = v)
          \<or> (k = ''text/html'' \<and> html r = v)
          \<or> (k = ''text/markdown'' \<and> markdown r = v)
          \<or> (k = ''image/svg+xml'' \<and> svg r = v)
          \<or> (k = ''image/png'' \<and> png r = v)
          \<or> (k = ''image/jpeg'' \<and> jpeg r = v)
          \<or> (k = ''application/pdf'' \<and> pdf r = v)
          \<or> (k = ''text/latex'' \<and> latex r = v)
          \<or> (k = ''application/json'' \<and> json r = v)
          \<or> (k = ''application/javascript'' \<and> javascript r = v)
          \<or> (k \<notin> set well_known \<and> map_of es k = Some v))"
proof -
  from Result_init_returns [OF d hd t run] obtain c h1
    where dc: "deepcopy limit (VRef d) h = (Inr c, h1)"
      and r: "r = \<lparr>text = t,
          html = or_none (map_of kvs ''text/html''),
          markdown = or_none (map_of kvs ''text/markdown''),
          svg = or_none (map_of kvs ''image/svg+xml''),
          png = or_none (map_of kvs ''image/png''),
          jpeg = or_none (map_of kvs ''image/jpeg''),
          pdf = or_none (map_of kvs ''application/pdf''),
          latex = or_none (map_of kvs ''text/latex''),
          json = or_none (map_of kvs ''application/json''),
          javascript = or_none (map_of kvs ''application/javascript''),
          extra = VRef d, is_main_result = m, raw = c\<rparr>"
      and h': "h' = h1[d := ODict (strip_well_known kvs)]"
    by blast
  have len: "length h' = length h1" by (simp add: h')
  have at: "h' ! d = ODict (strip_well_known kvs)"
    using d deepcopy_length [OF dc] h' by simp
  have fresh: "\<exists>b. raw r = VRef b \<and> length h \<le> b \<and> b < length h'"
    using deepcopy_fresh [OF d dc] len by (simp add: r)
  have later: "view n h'' (raw r) = view n h (VRef d)"
    if "length h' \<le> length h''" and "\<forall>a. length h \<le> a \<and> a < length h' \<longrightarrow> h'' ! a = h' ! a"
    for h'' n
  proof -
    have "\<forall>a. length h \<le> a \<and> a < length h1 \<longrightarrow> h'' ! a = h1 ! a"
      using that(2) d len h' by auto
    with deepcopy_view [OF wf d dc] that(1) len show ?thesis by (simp add: r)
  qed
  have now: "\<forall>n. view n h' (raw r) = view n h (VRef d)"
    using later [of h'] by simp
  have items: "(k = ''text/plain'' \<and> text r = v)
          \<or> (k = ''text/html'' \<and> html r = v)
          \<or> (k = ''text/markdown'' \<and> markdown r = v)
          \<or> (k = ''image/svg+xml'' \<and> svg r = v)
          \<or> (k = ''image/png'' \<and> png r = v)
          \<or> (k = ''image/jpeg'' \<and> jpeg r = v)
          \<or> (k = ''application/pdf'' \<and> pdf r = v)
          \<or> (k = ''text/latex'' \<and> latex r = v)
          \<or> (k = ''application/json'' \<and> json r = v)
          \<or> (k = ''application/javascript'' \<and> javascript r = v)
          \<or> (k \<notin> set well_known \<and> map_of (strip_well_known kvs) k = Some v)"
    if "map_of kvs k = Some v" for k v
  proof (cases "k \<in> set well_known")
    case True
    then have "k = ''text/plain'' \<or> k = ''text/html'' \<or> k = ''text/markdown''
        \<or> k = ''image/svg+xml'' \<or> k = ''image/png'' \<or> k = ''image/jpeg''
        \<or> k = ''application/pdf'' \<or> k = ''text/latex'' \<or> k = ''application/json''
        \<or> k = ''application/javascript''"
      by (simp add: well_known_def)
    then show ?thesis
      using that t by (elim disjE) (simp_all add: r or_none_def)
  next
    case False
    then show ?thesis using that by (simp add: map_of_strip_well_known)
  qed
  show ?thesis
    using at fresh now later items by blast
qed

theorem Result_raw_deep_copy_witness:
  "wf_heap bundle_heap \<and> (0::nat) < length bundle_heap \<and> bundle_heap ! 0 = ODict bundle_items
   \<and> map_of bundle_items ''text/plain'' = Some (VStr ''42'')
   \<and> Result_init 3 True (VRef 0) bundle_heap = (Inr bundle_result, bundle_after)
   \<and> (\<exists>c. raw bundle_result = VRef c \<and> length bundle_heap \<le> c \<and> c < length bundle_after)
   \<and> (\<forall>n. view n bundle_after (raw bundle_result) = view n bundle_heap (VRef 0))"
  using bundle_wf bundle_length bundle_at bundle_text bundle_run
    Result_raw_deep_copy [OF bundle_wf bundle_length bundle_at bundle_text bundle_run]
  by blast

text \<open>
  Claim C5. For every input mapping containing \<^verbatim>\<open>"text/plain"\<close> and each of the ten
  well-known MIME keys: when the key is in the input, the named field of that key
  (\<^verbatim>\<open>text\<close>, \<^verbatim>\<open>html\<close>, \<^verbatim>\<open>markdown\<close>, \<^verbatim>\<open>svg\<close>, \<^verbatim>\<open>png\<close>, \<^verbatim>\<open>jpeg\<close>, \<^verbatim>\<open>pdf\<close>, \<^verbatim>\<open>latex\<close>, \<^verbatim>\<open>json\<close>,
  \<^verbatim>\<open>javascript\<close>) is the key's value; when an optional key is not in the input, its field is
  \<^verbatim>\<open>None\<close>; and no well-known key is a key of \<^verbatim>\<open>extra\<close>.
\<close>

theorem Result_init_named_fields:
  assumes d: "d < length h" and hd: "h ! d = ODict kvs"
    and t: "map_of kvs ''text/plain'' = Some t"
    and run: "Result_init limit m (VRef d) h = (Inr r, h')"
  shows "\<exists>es. extra r = VRef d \<and> h' ! d = ODict es
     \<and> text r = t
     \<and> html r = (case map_of kvs ''text/html'' of Some v \<Rightarrow> v | None \<Rightarrow> VNone)
     \<and> markdown r = (case map_of kvs ''text/markdown'' of Some v \<Rightarrow> v | None \<Rightarrow> VNone)
     \<and> svg r = (case map_of kvs ''image/svg+xml'' of Some v \<Rightarrow> v | None \<Rightarrow> VNone)
     \<and> png r = (case map_of kvs ''image/png'' of Some v \<Rightarrow> v | None \<Rightarrow> VNone)
     \<and> jpeg r = (case map_of kvs ''image/jpeg'' of Some v \<Rightarrow> v | None \<Rightarrow> VNone)
     \<and> pdf r = (case map_of kvs ''application/pdf'' of Some v \<Rightarrow> v | None \<Rightarrow> VNone)
     \<and> latex r = (case map_of kvs ''text/latex'' of Some v \<Rightarrow> v | None \<Rightarrow> VNone)
     \<and> json r = (case map_of kvs ''application/json'' of Some v \<Rightarrow> v | None \<Rightarrow> VNone)
     \<and> javascript r = (case map_of kvs ''application/javascript'' of Some v \<Rightarrow> v | None \<Rightarrow> VNone)
     \<and> (\<forall>k \<in> set well_known. map_of es k = None)"
proof -
  from Result_init_returns [OF d hd t run] obtain c h1
    where dc: "deepcopy limit (VRef d) h = (Inr c, h1)"
      and r: "r = \<lparr>text = t,
          html = or_none (map_of kvs ''text/html''),
          markdown = or_none (map_of kvs ''text/markdown''),
          svg = or_none (map_of kvs ''image/svg+xml''),
          png = or_none (map_of kvs ''image/png''),
          jpeg = or_none (map_of kvs ''image/jpeg''),
          pdf = or_none (map_of kvs ''application/pdf''),
          latex = or_none (map_of kvs ''text/latex''),
          json = or_none (map_of kvs ''application/json''),
          javascript = or_none (map_of kvs ''application/javascript''),
          extra = VRef d, is_main_result = m, raw = c\<rparr>"
      and h': "h' = h1[d := ODict (strip_well_known kvs)]"
    by blast
  have at: "h' ! d = ODict (strip_well_known kvs)"
    using d deepcopy_length [OF dc] h' by simp
  have gone: "\<forall>k \<in> set well_known. map_of (strip_well_known kvs) k = None"
    by (simp add: map_of_strip_well_known)
  show ?thesis
    using at gone unfolding r or_none_def
    by (intro exI [of _ "strip_well_known kvs"]) simp
qed

theorem Result_init_named_fields_witness:
  "(0::nat) < length bundle_heap \<and> bundle_heap ! 0 = ODict bundle_items
   \<and> map_of bundle_items ''text/plain'' = Some (VStr ''42'')
   \<and> Result_init 3 True (VRef 0) bundle_heap = (Inr bundle_result, bundle_after)
   \<and> (\<exists>es. extra bundle_result = VRef 0 \<and> bundle_after ! 0 = ODict es
     \<and> text bundle_result = VStr ''42'' \<and> html bundle_result = VNone
     \<and> markdown bundle_result = VNone \<and> svg bundle_result = VNone
     \<and> png bundle_result = VStr ''iVBORw0K'' \<and> jpeg bundle_result = VNone
     \<and> pdf bundle_result = VNone \<and> latex bundle_result = VNone
     \<and> json bundle_result = VRef 1 \<and> javascript bundle_result = VNone
     \<and> (\<forall>k \<in> set well_known. map_of es k = None))"
  using bundle_length bundle_at bundle_text bundle_run
    Result_init_named_fields [OF bundle_length bundle_at bundle_text bundle_run]
  by (simp add: bundle_items_def)

text \<open>
  Claim C6. For every input mapping containing \<^verbatim>\<open>"text/plain"\<close>, every key of the input
  that is not one of the ten well-known MIME keys is a key of \<^verbatim>\<open>result.extra\<close> with the same
  value; \<^verbatim>\<open>result.extra\<close> has no well-known key, and no item that was not in the input.
\<close>

theorem Result_init_extra:
  assumes d: "d < length h" and hd: "h ! d = ODict kvs"
    and t: "map_of kvs ''text/plain'' = Some t"
    and run: "Result_init limit m (VRef d) h = (Inr r, h')"
  shows "\<exists>es. extra r = VRef d \<and> h' ! d = ODict es
     \<and> (\<forall>k v. k \<notin> set well_known \<and> map_of kvs k = Some v \<longrightarrow> map_of es k = Some v)
     \<and> (\<forall>k \<in> set well_known. map_of es k = None)
     \<and> (\<forall>k v. map_of es k = Some v \<longrightarrow> map_of kvs k = Some v)"
proof -
  from Result_init_returns [OF d hd t run] obtain c h1
    where dc: "deepcopy limit (VRef d) h = (Inr c, h1)"
      and e: "extra r = VRef d"
      and h': "h' = h1[d := ODict (strip_well_known kvs)]"
    by auto
  have es: "h' ! d = ODict (strip_well_known kvs)"
    using d deepcopy_length [OF dc] h' by simp
  have kept: "\<forall>k v. k \<notin> set well_known \<and> map_of kvs k = Some v
      \<longrightarrow> map_of (strip_well_known kvs) k = Some v"
    by (simp add: map_of_strip_well_known)
  have gone: "\<forall>k \<in> set well_known. map_of (strip_well_known kvs) k = None"
    by (simp add: map_of_strip_well_known)
  have only: "\<forall>k v. map_of (strip_well_known kvs) k = Some v \<longrightarrow> map_of kvs k = Some v"
    by (simp add: map_of_strip_well_known split: if_splits)
  have "extra r = VRef d \<and> h' ! d = ODict (strip_well_known kvs)
     \<and> (\<forall>k v. k \<notin> set well_known \<and> map_of kvs k = Some v
          \<longrightarrow> map_of (strip_well_known kvs) k = Some v)
     \<and> (\<forall>k \<in> set well_known. map_of (strip_well_known kvs) k = None)
     \<and> (\<forall>k v. map_of (strip_well_known kvs) k = Some v \<longrightarrow> map_of kvs k = Some v)"
    by (intro conjI e es kept gone only)
  then show ?thesis
    by (intro exI)
qed

theorem Result_init_extra_witness:
  "(0::nat) < length custom_heap
   \<and> custom_heap ! 0 = ODict [(''text/plain'', VStr ''hi''), (''application/x-custom'', VStr ''xyz'')]
   \<and> map_of [(''text/plain'', VStr ''hi''), (''application/x-custom'', VStr ''xyz'')] ''text/plain''
       = Some (VStr ''hi'')
   \<and> Result_init 2 True (VRef 0) custom_heap = (Inr custom_result, custom_after)
   \<and> (\<exists>es. extra custom_result = VRef 0 \<and> custom_after ! 0 = ODict es
     \<and> (\<forall>k v. k \<notin> set well_known
            \<and> map_of [(''text/plain'', VStr ''hi''), (''application/x-custom'', VStr ''xyz'')] k = Some v
          \<longrightarrow> map_of es k = Some v)
     \<and> (\<forall>k \<in> set well_known. map_of es k = None)
     \<and> (\<forall>k v. map_of es k = Some v
          \<longrightarrow> map_of [(''text/plain'', VStr ''hi''), (''application/x-custom'', VStr ''xyz'')] k = Some v))"
  by (rule conjI [OF custom_length conjI [OF custom_at conjI [OF custom_text conjI [OF custom_run
      Result_init_extra [OF custom_length custom_at custom_text custom_run]]]]])

text \<open>
  Claim C9. For every input mapping containing \<^verbatim>\<open>"text/plain"\<close>, after the constructor
  returns, the caller's \<^verbatim>\<open>data\<close> dictionary has lost exactly the ten well-known keys: it
  holds its other items, with their values, in their order. That dictionary is the very
  object stored as \<^verbatim>\<open>result.extra\<close>; whatever contents the caller gives it later are the
  contents seen through \<^verbatim>\<open>result.extra\<close>.
\<close>

theorem Result_init_extra_is_caller_mapping:
  assumes d: "d < length h" and hd: "h ! d = ODict kvs"
    and t: "map_of kvs ''text/plain'' = Some t"
    and run: "Result_init limit m (VRef d) h = (Inr r, h')"
  shows "h' ! d = ODict (filter (\<lambda>kv. fst kv \<notin> set well_known) kvs)
     \<and> extra r = VRef d
     \<and> (\<forall>items n. view (Suc n) (h'[d := ODict items]) (extra r)
           = TDict (map (\<lambda>(k, v). (k, view n (h'[d := ODict items]) v)) items))"
proof -
  from Result_init_returns [OF d hd t run] obtain c h1
    where dc: "deepcopy limit (VRef d) h = (Inr c, h1)"
      and e: "extra r = VRef d"
      and h': "h' = h1[d := ODict (strip_well_known kvs)]"
    by auto
  have d': "d < length h'"
    using d deepcopy_length [OF dc] h' by simp
  have at: "h' ! d = ODict (filter (\<lambda>kv. fst kv \<notin> set well_known) kvs)"
    using d' h' by (simp add: strip_well_known_def)
  have "\<forall>items n. view (Suc n) (h'[d := ODict items]) (extra r)
           = TDict (map (\<lambda>(k, v). (k, view n (h'[d := ODict items]) v)) items)"
    using e d' by simp
  with at e show ?thesis by (intro conjI)
qed

theorem Result_init_extra_is_caller_mapping_witness:
  "(0::nat) < length bundle_heap \<and> bundle_heap ! 0 = ODict bundle_items
   \<and> map_of bundle_items ''text/plain'' = Some (VStr ''42'')
   \<and> Result_init 3 True (VRef 0) bundle_heap = (Inr bundle_result, bundle_after)
   \<and> (bundle_after ! 0 = ODict (filter (\<lambda>kv. fst kv \<notin> set well_known) bundle_items)
     \<and> extra bundle_result = VRef 0
     \<and> (\<forall>items n. view (Suc n) (bundle_after[0 := ODict items]) (extra bundle_result)
           = TDict (map (\<lambda>(k, v). (k, view n (bundle_after[0 := ODict items]) v)) items)))"
  by (rule conjI [OF bundle_length conjI [OF bundle_at conjI [OF bundle_text conjI [OF bundle_run
      Result_init_extra_is_caller_mapping [OF bundle_length bundle_at bundle_text bundle_run]]]]])

end
